theory Spec2Isabelle
  imports Complex_Main "HOL-Library.Word"
begin

section \<open>Data model\<close>

text \<open>
  A \<open>uint8\<close> element is an 8-bit word: subtraction on it wraps, as \<open>np.diff\<close> on a
  \<open>uint8\<close> array does. A 16-bit sample of the raw audio stream is kept as the two bytes it
  occupies in the buffer, in buffer order: \<open>np.frombuffer(..., dtype=np.int16)\<close> and
  \<open>tobytes()\<close> only regroup bytes. Sizes and indices are natural numbers (negative
  constructor arguments are outside this model), so that the subtraction inside
  \<open>b'\x00' * (n - m)\<close> stops at the empty string as Python's repetition does.
\<close>

type_synonym byte = "8 word"
type_synonym sample = "byte \<times> byte"

datatype py_error = ZeroDivisionError | ValueError | IndexError | FileNotFoundError | ImageSaveError

record converter =
  width :: nat
  height :: nat
  sample_rate :: nat
  audio_channels :: nat
  pixels_per_frame :: nat
  bytes_per_frame_video :: nat
  samples_per_frame :: nat
  bytes_per_frame_audio :: nat
  bytes_per_frame_total :: nat

record compression_meta =
  original_length :: nat
  compressed_length :: nat
  compression_ratio :: rat
  matrix_size :: nat
  differential_base :: nat

record frame_meta =
  frame_idx :: nat
  video_bytes :: nat
  audio_bytes :: nat
  compression :: compression_meta

record metadata =
  original_size :: nat
  meta_width :: nat
  meta_height :: nat
  meta_sample_rate :: nat
  meta_audio_channels :: nat
  num_frames :: nat
  fps :: nat
  frames :: "frame_meta list"

text \<open>
  What the encode pass leaves in the output directory: the pixel bytes of
  \<open>frame_000000.png\<close>, \<open>frame_000001.png\<close>, ... in index order (the image file is a
  lossless container of the \<open>height \<times> width \<times> 3\<close> byte grid), \<open>audio.raw\<close>, and
  \<open>metadata.json\<close>.
\<close>

record artifacts =
  frame_files :: "byte list list"
  audio_raw :: "sample list"
  metadata_json :: metadata

section \<open>Capacity planning\<close>

text \<open>\<open>__init__\<close>: the audio capacity divides the sample rate by the constant 30.\<close>

definition init :: "nat \<Rightarrow> nat \<Rightarrow> nat \<Rightarrow> nat \<Rightarrow> converter" where
  "init w h sr ch =
     (let ppf = w * h;
          bpfv = ppf * 3;
          spf = sr div 30;
          bpfa = spf * ch * 2
      in \<lparr>width = w, height = h, sample_rate = sr, audio_channels = ch,
          pixels_per_frame = ppf, bytes_per_frame_video = bpfv,
          samples_per_frame = spf, bytes_per_frame_audio = bpfa,
          bytes_per_frame_total = bpfv + bpfa\<rparr>)"

text \<open>The constructor's default arguments.\<close>

definition default_converter :: converter where
  "default_converter = init 1920 1080 48000 2"

section \<open>Compression codec\<close>

text \<open>\<open>np.diff(a)\<close>: successive differences, in \<open>uint8\<close> arithmetic.\<close>

fun np_diff :: "byte list \<Rightarrow> byte list" where
  "np_diff (x # y # ys) = (y - x) # np_diff (y # ys)"
| "np_diff _ = []"

text \<open>
  The differential stage of \<open>create_compression_matrix\<close>:
  \<open>np.diff(data_array, prepend=data_array[0])\<close> when there are at least two bytes,
  the array itself otherwise.
\<close>

definition differential :: "byte list \<Rightarrow> byte list" where
  "differential data_array =
     (if length data_array > 1 then np_diff (data_array ! 0 # data_array) else data_array)"

text \<open>The inner \<open>while\<close> of \<open>_apply_rle\<close>: extend the run starting at \<open>i\<close>.\<close>

function run_count :: "byte list \<Rightarrow> nat \<Rightarrow> nat \<Rightarrow> nat" where
  "run_count data i count =
     (if i + count < length data \<and> data ! i = data ! (i + count) \<and> count < 255
      then run_count data i (count + 1) else count)"
  by pat_completeness auto
termination
  by (relation "measure (\<lambda>(data, i, count). length data - (i + count))") auto

declare run_count.simps [simp del]

lemma run_count_ge: "count \<le> run_count data i count"
proof (induction data i count rule: run_count.induct)
  case (1 data i count)
  show ?case
  proof (cases "i + count < length data \<and> data ! i = data ! (i + count) \<and> count < 255")
    case True
    with 1 have "count + 1 \<le> run_count data i (count + 1)" by simp
    with True show ?thesis by (subst run_count.simps) simp
  next
    case False
    then show ?thesis by (subst run_count.simps) auto
  qed
qed

text \<open>The outer \<open>while\<close> of \<open>_apply_rle\<close>, with the list \<open>compressed\<close> as accumulator.\<close>

function rle_loop :: "byte list \<Rightarrow> nat \<Rightarrow> byte list \<Rightarrow> byte list" where
  "rle_loop data i compressed =
     (if i < length data
      then (let count = run_count data i 1
            in rle_loop data (i + count)
                 (compressed @
                   (if count > 3 then [255, data ! i, of_nat count]
                    else replicate count (data ! i))))
      else compressed)"
  by pat_completeness auto
termination
proof (relation "measure (\<lambda>(data, i, compressed). length data - i)")
  show "wf (measure (\<lambda>(data, i, compressed). length data - i))" by simp
next
  fix data :: "byte list" and i :: nat and compressed :: "byte list" and x :: nat
  assume "i < length data" and "x = run_count data i 1"
  moreover have "1 \<le> run_count data i 1" by (rule run_count_ge)
  ultimately show "((data, i + x,
      compressed @ (if 3 < x then [255, data ! i, of_nat x] else replicate x (data ! i))),
      (data, i, compressed)) \<in> measure (\<lambda>(data, i, compressed). length data - i)"
    by simp
qed

declare rle_loop.simps [simp del]

definition apply_rle :: "byte list \<Rightarrow> byte list" where
  "apply_rle data = (if length data = 0 then data else rle_loop data 0 [])"

text \<open>The loop of \<open>_decode_rle\<close>; \<open>[value] * count\<close> repeats by the count byte's value.\<close>

function decode_loop :: "byte list \<Rightarrow> nat \<Rightarrow> byte list \<Rightarrow> byte list" where
  "decode_loop data i decompressed =
     (if i < length data
      then (if data ! i = 255 \<and> i + 2 < length data
            then decode_loop data (i + 3)
                   (decompressed @ replicate (unat (data ! (i + 2))) (data ! (i + 1)))
            else decode_loop data (i + 1) (decompressed @ [data ! i]))
      else decompressed)"
  by pat_completeness auto
termination
  by (relation "measure (\<lambda>(data, i, decompressed). length data - i)") auto

declare decode_loop.simps [simp del]

definition decode_rle :: "byte list \<Rightarrow> byte list" where
  "decode_rle data = (if length data = 0 then data else decode_loop data 0 [])"

text \<open>
  The differential decode of \<open>frames_with_audio_to_file\<close>:
  \<open>np.cumsum(decompressed, dtype=np.int32)\<close> is a running sum in 32-bit arithmetic,
  element 0 is then overwritten by the recorded base, and \<open>np.clip(..., 0, 255)\<close>
  saturates each signed 32-bit value before the cast to \<open>uint8\<close>.
\<close>

fun cumsum :: "32 word \<Rightarrow> byte list \<Rightarrow> 32 word list" where
  "cumsum acc [] = []"
| "cumsum acc (x # xs) = (acc + ucast x) # cumsum (acc + ucast x) xs"

definition clip_u8 :: "32 word \<Rightarrow> byte" where
  "clip_u8 v = (if sint v < 0 then 0 else if sint v > 255 then 255 else ucast v)"

definition differential_decode :: "nat \<Rightarrow> byte list \<Rightarrow> byte list" where
  "differential_decode base_value decompressed =
     (if length decompressed > 0
      then map clip_u8 ((cumsum 0 decompressed)[0 := of_nat base_value])
      else decompressed)"

text \<open>
  \<open>create_compression_matrix\<close>. The cosine matrix it also returns is built from
  \<open>matrix_size\<close> alone in floating point and is kept outside this function (see
  \<open>matrix_to_audio\<close>). \<open>compression_ratio\<close> is the quotient of the two lengths, kept
  exact.
\<close>

definition create_compression_matrix :: "byte list \<Rightarrow> nat \<Rightarrow> byte list \<times> compression_meta" where
  "create_compression_matrix data_array msize =
     (let compressed = apply_rle (differential data_array)
      in (compressed,
          \<lparr>original_length = length data_array,
           compressed_length = length compressed,
           compression_ratio =
             (if length data_array > 0
              then of_nat (length compressed) / of_nat (length data_array) else 1),
           matrix_size = msize,
           differential_base = (if length data_array > 0 then unat (data_array ! 0) else 0)\<rparr>))"

section \<open>Audio buffers\<close>

text \<open>\<open>np.frombuffer(buf, dtype=np.int16)\<close> raises on a buffer of odd length.\<close>

fun frombuffer_int16 :: "byte list \<Rightarrow> py_error + sample list" where
  "frombuffer_int16 [] = Inr []"
| "frombuffer_int16 [x] = Inl ValueError"
| "frombuffer_int16 (x # y # zs) =
     (case frombuffer_int16 zs of Inl e \<Rightarrow> Inl e | Inr ss \<Rightarrow> Inr ((x, y) # ss))"

fun tobytes :: "sample list \<Rightarrow> byte list" where
  "tobytes [] = []"
| "tobytes ((x, y) # ss) = x # y # tobytes ss"

text \<open>Python's \<open>xs[a:b]\<close> for non-negative bounds.\<close>

definition slice :: "'a list \<Rightarrow> nat \<Rightarrow> nat \<Rightarrow> 'a list" where
  "slice xs a b = take (b - a) (drop a xs)"

text \<open>
  \<open>matrix_to_audio\<close>: every element of the flattened \<open>matrix_size \<times> matrix_size\<close>
  matrix becomes one 16-bit sample. The sample values come from floating-point cosines
  and a min-max normalisation; \<open>q j\<close> stands for the sample of flat element \<open>j\<close>.
\<close>

definition matrix_to_audio :: "(nat \<Rightarrow> sample) \<Rightarrow> nat \<Rightarrow> byte list" where
  "matrix_to_audio q msize = tobytes (map q [0..<msize * msize])"

text \<open>
  \<open>audio_to_matrix\<close>: \<open>normalized[:n*n].reshape(n, n)\<close> raises unless \<open>n*n\<close> samples
  are there; the matrix values themselves are never used by the decode pass.
\<close>

definition audio_to_matrix :: "sample list \<Rightarrow> nat \<Rightarrow> py_error + unit" where
  "audio_to_matrix samples msize =
     (if length (take (msize * msize) samples) = msize * msize then Inr () else Inl ValueError)"

section \<open>Encode pass\<close>

definition default_matrix_size :: nat where
  "default_matrix_size = 16"

definition frame_total_data :: "converter \<Rightarrow> byte list \<Rightarrow> nat \<Rightarrow> byte list" where
  "frame_total_data c data k =
     (let file_size = length data;
          start_idx = k * bytes_per_frame_total c;
          end_idx = min (start_idx + bytes_per_frame_total c) file_size
      in slice data start_idx end_idx)"

definition video_data_size :: "converter \<Rightarrow> byte list \<Rightarrow> nat \<Rightarrow> nat" where
  "video_data_size c data k = min (length (frame_total_data c data k)) (bytes_per_frame_video c)"

definition video_data :: "converter \<Rightarrow> byte list \<Rightarrow> nat \<Rightarrow> byte list" where
  "video_data c data k = take (video_data_size c data k) (frame_total_data c data k)"

definition audio_data :: "converter \<Rightarrow> byte list \<Rightarrow> nat \<Rightarrow> byte list" where
  "audio_data c data k =
     (if length (frame_total_data c data k) > video_data_size c data k
      then drop (video_data_size c data k) (frame_total_data c data k) else [])"

text \<open>Zero-pad or truncate the compressed payload to the pixel capacity.\<close>

definition fit_video :: "converter \<Rightarrow> byte list \<Rightarrow> byte list" where
  "fit_video c compressed_video =
     (if length compressed_video < bytes_per_frame_video c
      then compressed_video @ replicate (bytes_per_frame_video c - length compressed_video) 0
      else take (bytes_per_frame_video c) compressed_video)"

text \<open>\<open>full_audio[:bytes_per_frame_audio]\<close>: matrix bytes, then overflow, then padding, cut
  at the audio capacity.\<close>

definition full_audio :: "converter \<Rightarrow> (nat \<Rightarrow> sample) \<Rightarrow> byte list \<Rightarrow> nat \<Rightarrow> byte list" where
  "full_audio c q data k =
     (let matrix_audio = matrix_to_audio q default_matrix_size;
          audio_data_padded = audio_data c data k @
            replicate (bytes_per_frame_audio c - length matrix_audio - length (audio_data c data k)) 0
      in matrix_audio @ audio_data_padded)"

definition frame_audio :: "converter \<Rightarrow> (nat \<Rightarrow> sample) \<Rightarrow> byte list \<Rightarrow> nat \<Rightarrow> byte list" where
  "frame_audio c q data k = take (bytes_per_frame_audio c) (full_audio c q data k)"

text \<open>One iteration of the frame loop of \<open>file_to_frames_with_audio\<close>: the pixel bytes of
  the saved image, the frame's audio samples and its metadata entry. \<open>reshape\<close> raises
  unless the buffer has \<open>height * width * 3\<close> bytes, and \<open>img.save\<close> raises on an
  image without pixels (width or height 0).\<close>

definition encode_frame ::
  "converter \<Rightarrow> (nat \<Rightarrow> sample) \<Rightarrow> byte list \<Rightarrow> nat \<Rightarrow>
     py_error + (byte list \<times> sample list \<times> frame_meta)" where
  "encode_frame c q data k =
     (let (compressed_video, compression_meta) =
            create_compression_matrix (video_data c data k) default_matrix_size;
          pixels = fit_video c compressed_video
      in case frombuffer_int16 (frame_audio c q data k) of
           Inl e \<Rightarrow> Inl e
         | Inr audio_samples \<Rightarrow>
             if length pixels \<noteq> height c * width c * 3 then Inl ValueError
             else if width c = 0 \<or> height c = 0 then Inl ImageSaveError
             else Inr (pixels, audio_samples,
                       \<lparr>frame_idx = k, video_bytes = video_data_size c data k,
                        audio_bytes = length (audio_data c data k),
                        compression = compression_meta\<rparr>))"

fun encode_frames ::
  "converter \<Rightarrow> (nat \<Rightarrow> sample) \<Rightarrow> byte list \<Rightarrow> nat list \<Rightarrow>
     byte list list \<times> sample list list \<times> frame_meta list \<Rightarrow>
     py_error + (byte list list \<times> sample list list \<times> frame_meta list)" where
  "encode_frames c q data [] st = Inr st"
| "encode_frames c q data (k # ks) (files, all_audio_data, frames_metadata) =
     (case encode_frame c q data k of
        Inl e \<Rightarrow> Inl e
      | Inr (pixels, audio_samples, fm) \<Rightarrow>
          encode_frames c q data ks
            (files @ [pixels], all_audio_data @ [audio_samples], frames_metadata @ [fm]))"

text \<open>
  \<open>file_to_frames_with_audio\<close>. \<open>math.ceil(file_size / total)\<close> divides by zero when the
  total capacity is 0, and \<open>np.concatenate\<close> raises on an empty list of arrays. The
  \<open>fps\<close> argument is only written to the metadata.
\<close>

definition file_to_frames_with_audio ::
  "converter \<Rightarrow> (nat \<Rightarrow> sample) \<Rightarrow> byte list \<Rightarrow> nat \<Rightarrow> py_error + artifacts" where
  "file_to_frames_with_audio c q data fps_arg =
     (let file_size = length data
      in if bytes_per_frame_total c = 0 then Inl ZeroDivisionError
         else
           (let n = nat \<lceil>(of_nat file_size :: rat) / of_nat (bytes_per_frame_total c)\<rceil>
            in case encode_frames c q data [0..<n] ([], [], []) of
                 Inl e \<Rightarrow> Inl e
               | Inr (files, all_audio_data, frames_metadata) \<Rightarrow>
                   if all_audio_data = [] then Inl ValueError
                   else Inr \<lparr>frame_files = files,
                             audio_raw = concat all_audio_data,
                             metadata_json =
                               \<lparr>original_size = file_size, meta_width = width c,
                                meta_height = height c, meta_sample_rate = sample_rate c,
                                meta_audio_channels = audio_channels c, num_frames = n,
                                fps = fps_arg, frames = frames_metadata\<rparr>\<rparr>))"

section \<open>Decode pass\<close>

text \<open>The bytes handed to \<open>_decode_rle\<close>: \<open>frame_array.tobytes()[:video_bytes]\<close>.\<close>

definition compressed_bytes :: "byte list \<Rightarrow> frame_meta \<Rightarrow> byte list" where
  "compressed_bytes frame_array fm = take (video_bytes fm) frame_array"

text \<open>One iteration of the frame loop of \<open>frames_with_audio_to_file\<close>, on the state
  \<open>(audio_offset, all_data)\<close>.\<close>

definition decode_frame ::
  "converter \<Rightarrow> artifacts \<Rightarrow> nat \<Rightarrow> nat \<times> byte list \<Rightarrow> py_error + (nat \<times> byte list)" where
  "decode_frame c art k st =
     (let (audio_offset, all_data) = st;
          md = metadata_json art
      in if k \<ge> length (frames md) then Inl IndexError
         else if k \<ge> length (frame_files art) then Inl FileNotFoundError
         else
           (let fm = frames md ! k;
                frame_array = frame_files art ! k;
                msize = matrix_size (compression fm);
                samples_for_matrix = msize * msize;
                matrix_audio_samples =
                  slice (audio_raw art) audio_offset (audio_offset + samples_for_matrix)
            in case audio_to_matrix matrix_audio_samples msize of
                 Inl e \<Rightarrow> Inl e
               | Inr u \<Rightarrow>
                   (let decompressed = decode_rle (compressed_bytes frame_array fm);
                        original_data =
                          differential_decode (differential_base (compression fm)) decompressed;
                        video = take (original_length (compression fm)) original_data;
                        audio_start = audio_offset + samples_for_matrix;
                        audio_end = audio_start + audio_bytes fm div 2;
                        frame_audio_samples = slice (audio_raw art) audio_start audio_end;
                        frame_audio_bytes = take (audio_bytes fm) (tobytes frame_audio_samples)
                    in Inr (audio_offset + samples_per_frame c,
                            all_data @ video @ frame_audio_bytes))))"

fun decode_frames ::
  "converter \<Rightarrow> artifacts \<Rightarrow> nat list \<Rightarrow> nat \<times> byte list \<Rightarrow> py_error + (nat \<times> byte list)" where
  "decode_frames c art [] st = Inr st"
| "decode_frames c art (k # ks) st =
     (case decode_frame c art k st of Inl e \<Rightarrow> Inl e | Inr st' \<Rightarrow> decode_frames c art ks st')"

text \<open>\<open>frames_with_audio_to_file\<close>: the bytes written to the output file.\<close>

definition frames_with_audio_to_file :: "converter \<Rightarrow> artifacts \<Rightarrow> py_error + byte list" where
  "frames_with_audio_to_file c art =
     (let md = metadata_json art
      in case decode_frames c art [0..<num_frames md] (0, []) of
           Inl e \<Rightarrow> Inl e
         | Inr (audio_offset, all_data) \<Rightarrow> Inr (take (original_size md) all_data))"

section \<open>Auxiliary definitions\<close>

text \<open>What one iteration of the outer loop of \<open>_apply_rle\<close> appends for the run at \<open>i\<close>.\<close>

definition rle_chunk :: "byte list \<Rightarrow> nat \<Rightarrow> byte list" where
  "rle_chunk data i =
     (if run_count data i 1 > 3 then [255, data ! i, of_nat (run_count data i 1)]
      else replicate (run_count data i 1) (data ! i))"

text \<open>
  The byte 255 occurs only inside runs that \<open>_apply_rle\<close> turns into an escape triple:
  following the encoder's scan from index \<open>i\<close>, no run of the value 255 is emitted as
  literal bytes.
\<close>

function no_literal_255 :: "byte list \<Rightarrow> nat \<Rightarrow> bool" where
  "no_literal_255 data i =
     (if i < length data
      then (data ! i = 255 \<longrightarrow> run_count data i 1 > 3) \<and>
           no_literal_255 data (i + run_count data i 1)
      else True)"
  by pat_completeness auto
termination
proof (relation "measure (\<lambda>(data, i). length data - i)")
  show "wf (measure (\<lambda>(data, i). length data - i))" by simp
next
  fix data :: "byte list" and i :: nat
  assume "i < length data"
  moreover have "1 \<le> run_count data i 1" by (rule run_count_ge)
  ultimately show "((data, i + run_count data i 1), (data, i)) \<in> measure (\<lambda>(data, i). length data - i)"
    by simp
qed

declare no_literal_255.simps [simp del]

text \<open>The samples \<open>np.frombuffer\<close> reads from a buffer of even length.\<close>

fun pairs :: "byte list \<Rightarrow> sample list" where
  "pairs (x # y # zs) = (x, y) # pairs zs"
| "pairs _ = []"

text \<open>The three results of one encode iteration, named separately.\<close>

definition frame_pixels :: "converter \<Rightarrow> byte list \<Rightarrow> nat \<Rightarrow> byte list" where
  "frame_pixels c data k = fit_video c (apply_rle (differential (video_data c data k)))"

definition frame_samples :: "converter \<Rightarrow> (nat \<Rightarrow> sample) \<Rightarrow> byte list \<Rightarrow> nat \<Rightarrow> sample list" where
  "frame_samples c q data k = pairs (frame_audio c q data k)"

definition frame_record :: "converter \<Rightarrow> byte list \<Rightarrow> nat \<Rightarrow> frame_meta" where
  "frame_record c data k =
     \<lparr>frame_idx = k, video_bytes = video_data_size c data k,
      audio_bytes = length (audio_data c data k),
      compression = snd (create_compression_matrix (video_data c data k) default_matrix_size)\<rparr>"

text \<open>The number of frames computed by the encode pass, and the artifacts it writes when
  every step succeeds.\<close>

definition frame_count :: "converter \<Rightarrow> byte list \<Rightarrow> nat" where
  "frame_count c data = nat \<lceil>(of_nat (length data) :: rat) / of_nat (bytes_per_frame_total c)\<rceil>"

definition encoded :: "converter \<Rightarrow> (nat \<Rightarrow> sample) \<Rightarrow> byte list \<Rightarrow> nat \<Rightarrow> artifacts" where
  "encoded c q data f =
     \<lparr>frame_files = map (frame_pixels c data) [0..<frame_count c data],
      audio_raw = concat (map (frame_samples c q data) [0..<frame_count c data]),
      metadata_json =
        \<lparr>original_size = length data, meta_width = width c, meta_height = height c,
         meta_sample_rate = sample_rate c, meta_audio_channels = audio_channels c,
         num_frames = frame_count c data, fps = f,
         frames = map (frame_record c data) [0..<frame_count c data]\<rparr>\<rparr>"

section \<open>The run-length codec\<close>

lemma run_count_le: "i + count \<le> length data \<Longrightarrow> i + run_count data i count \<le> length data"
proof (induction data i count rule: run_count.induct)
  case (1 data i count)
  show ?case
  proof (cases "i + count < length data \<and> data ! i = data ! (i + count) \<and> count < 255")
    case True
    with 1 show ?thesis by (subst run_count.simps) simp
  next
    case False
    with 1 show ?thesis by (subst run_count.simps) auto
  qed
qed

lemma run_count_max: "count \<le> 255 \<Longrightarrow> run_count data i count \<le> 255"
proof (induction data i count rule: run_count.induct)
  case (1 data i count)
  show ?case
  proof (cases "i + count < length data \<and> data ! i = data ! (i + count) \<and> count < 255")
    case True
    with 1 show ?thesis by (subst run_count.simps) simp
  next
    case False
    with 1 show ?thesis by (subst run_count.simps) auto
  qed
qed

lemma run_count_same:
  "\<forall>j<count. data ! (i + j) = data ! i \<Longrightarrow> j < run_count data i count \<Longrightarrow> data ! (i + j) = data ! i"
proof (induction data i count rule: run_count.induct)
  case (1 data i count)
  show ?case
  proof (cases "i + count < length data \<and> data ! i = data ! (i + count) \<and> count < 255")
    case True
    have "\<forall>j<count + 1. data ! (i + j) = data ! i"
      using True "1.prems"(1) by (auto simp: less_Suc_eq)
    moreover have "j < run_count data i (count + 1)"
      using "1.prems"(2) True by (subst (asm) run_count.simps) simp
    ultimately show ?thesis using "1.IH" True by blast
  next
    case False
    with "1.prems" show ?thesis by (subst (asm) run_count.simps) auto
  qed
qed

lemma run_chunk:
  assumes "i < length data"
  shows "take (run_count data i 1) (drop i data) = replicate (run_count data i 1) (data ! i)"
proof (rule nth_equalityI)
  show "length (take (run_count data i 1) (drop i data)) = length (replicate (run_count data i 1) (data ! i))"
    using run_count_le [of i 1 data] assms by simp
next
  fix j assume "j < length (take (run_count data i 1) (drop i data))"
  then have j: "j < run_count data i 1" by simp
  have "data ! (i + j) = data ! i"
    by (rule run_count_same [OF _ j]) simp
  moreover have "i + j < length data" using run_count_le [of i 1 data] assms j by simp
  ultimately show "take (run_count data i 1) (drop i data) ! j = replicate (run_count data i 1) (data ! i) ! j"
    using j by simp
qed

lemma rle_loop_step:
  "i < length data \<Longrightarrow>
   rle_loop data i acc = rle_loop data (i + run_count data i 1) (acc @ rle_chunk data i)"
  by (subst rle_loop.simps) (simp add: Let_def rle_chunk_def)

lemma rle_loop_stop: "\<not> i < length data \<Longrightarrow> rle_loop data i acc = acc"
  by (subst rle_loop.simps) (simp only: if_False)

lemma rle_loop_acc: "rle_loop data i acc = acc @ rle_loop data i []"
proof (induction "length data - i" arbitrary: i acc rule: less_induct)
  case less
  show ?case
  proof (cases "i < length data")
    case True
    have pos: "1 \<le> run_count data i 1" by (rule run_count_ge)
    then have dec: "length data - (i + run_count data i 1) < length data - i"
      using True by simp
    have "rle_loop data i acc = (acc @ rle_chunk data i) @ rle_loop data (i + run_count data i 1) []"
      using less [OF dec, of "acc @ rle_chunk data i"] rle_loop_step [OF True, of acc] by simp
    moreover have "rle_loop data i [] = rle_chunk data i @ rle_loop data (i + run_count data i 1) []"
      using less [OF dec, of "rle_chunk data i"] rle_loop_step [OF True, of "[]"] by simp
    ultimately show ?thesis by simp
  next
    case False
    then show ?thesis by (simp add: rle_loop_stop)
  qed
qed

lemma rle_loop_unfold:
  "i < length data \<Longrightarrow>
   rle_loop data i [] = rle_chunk data i @ rle_loop data (i + run_count data i 1) []"
  using rle_loop_step [of i data "[]"] rle_loop_acc [of data "i + run_count data i 1" "rle_chunk data i"]
  by simp

lemma length_rle_chunk: "length (rle_chunk data i) \<le> run_count data i 1"
  by (simp add: rle_chunk_def)

lemma length_rle_loop: "length (rle_loop data i []) \<le> length data - i"
proof (induction "length data - i" arbitrary: i rule: less_induct)
  case less
  show ?case
  proof (cases "i < length data")
    case True
    have pos: "1 \<le> run_count data i 1" by (rule run_count_ge)
    then have dec: "length data - (i + run_count data i 1) < length data - i"
      using True by simp
    have le: "i + run_count data i 1 \<le> length data"
      using run_count_le [of i 1 data] True by simp
    have "length (rle_loop data i []) \<le> run_count data i 1 + (length data - (i + run_count data i 1))"
      using less [OF dec] length_rle_chunk [of data i] by (simp add: rle_loop_unfold [OF True])
    with le show ?thesis by simp
  next
    case False
    then show ?thesis by (simp add: rle_loop_stop)
  qed
qed

lemma apply_rle_eq: "apply_rle data = rle_loop data 0 []"
  by (simp add: apply_rle_def rle_loop_stop)

lemma length_apply_rle: "length (apply_rle data) \<le> length data"
  using length_rle_loop [of data 0] by (simp add: apply_rle_eq)


lemma decode_loop_stop: "\<not> i < length data \<Longrightarrow> decode_loop data i acc = acc"
  by (subst decode_loop.simps) (simp only: if_False)

lemma decode_loop_acc: "decode_loop data i acc = acc @ decode_loop data i []"
proof (induction "length data - i" arbitrary: i acc rule: less_induct)
  case less
  show ?case
  proof (cases "i < length data")
    case True
    show ?thesis
    proof (cases "data ! i = 255 \<and> i + 2 < length data")
      case esc: True
      have dec: "length data - (i + 3) < length data - i" using True by simp
      let ?r = "replicate (unat (data ! (i + 2))) (data ! (i + 1))"
      have "decode_loop data i acc = decode_loop data (i + 3) (acc @ ?r)"
        using True esc by (subst decode_loop.simps) simp
      moreover have "decode_loop data i [] = decode_loop data (i + 3) ?r"
        using True esc by (subst decode_loop.simps) simp
      ultimately show ?thesis
        using less [OF dec, of "acc @ ?r"] less [OF dec, of ?r] by simp
    next
      case lit: False
      have dec: "length data - (i + 1) < length data - i" using True by simp
      have "decode_loop data i acc = decode_loop data (i + 1) (acc @ [data ! i])"
        using True lit by (subst decode_loop.simps) auto
      moreover have "decode_loop data i [] = decode_loop data (i + 1) [data ! i]"
        using True lit by (subst decode_loop.simps) auto
      ultimately show ?thesis
        using less [OF dec, of "acc @ [data ! i]"] less [OF dec, of "[data ! i]"] by simp
    qed
  next
    case False
    then show ?thesis by (simp add: decode_loop_stop)
  qed
qed

lemma decode_loop_shift: "decode_loop (xs @ ys) (length xs + i) acc = decode_loop ys i acc"
proof (induction ys i acc rule: decode_loop.induct)
  case (1 data i acc)
  show ?case
  proof (cases "i < length data")
    case True
    show ?thesis
    proof (cases "data ! i = 255 \<and> i + 2 < length data")
      case esc: True
      have "decode_loop (xs @ data) (length xs + i) acc =
            decode_loop (xs @ data) (length xs + (i + 3))
              (acc @ replicate (unat (data ! (i + 2))) (data ! (i + 1)))"
        using True esc by (subst decode_loop.simps) (simp add: nth_append add.assoc)
      also have "\<dots> = decode_loop data (i + 3) (acc @ replicate (unat (data ! (i + 2))) (data ! (i + 1)))"
        using "1.IH"(1) True esc by simp
      also have "\<dots> = decode_loop data i acc"
        using True esc by (subst (2) decode_loop.simps) simp
      finally show ?thesis .
    next
      case lit: False
      have "decode_loop (xs @ data) (length xs + i) acc =
            decode_loop (xs @ data) (length xs + (i + 1)) (acc @ [data ! i])"
        using True lit by (subst decode_loop.simps) (auto simp add: nth_append add.assoc)
      also have "\<dots> = decode_loop data (i + 1) (acc @ [data ! i])"
        using "1.IH"(2) True lit by simp
      also have "\<dots> = decode_loop data i acc"
        using True lit by (subst (2) decode_loop.simps) auto
      finally show ?thesis .
    qed
  next
    case False
    then show ?thesis by (simp add: decode_loop_stop)
  qed
qed

lemma decode_rle_eq: "decode_rle data = decode_loop data 0 []"
  by (simp add: decode_rle_def decode_loop_stop)

lemma decode_rle_escape:
  "decode_rle (255 # v # n # rest) = replicate (unat n) v @ decode_rle rest"
proof -
  have "decode_loop (255 # v # n # rest) 0 [] = decode_loop (255 # v # n # rest) 3 (replicate (unat n) v)"
    by (subst decode_loop.simps) simp
  also have "\<dots> = decode_loop rest 0 (replicate (unat n) v)"
    using decode_loop_shift [of "[255, v, n]" rest 0] by (simp add: numeral_3_eq_3)
  finally show ?thesis by (simp add: decode_rle_eq decode_loop_acc [of rest 0 "replicate (unat n) v"])
qed

lemma decode_rle_literal:
  assumes "x \<noteq> 255 \<or> length rest < 2"
  shows "decode_rle (x # rest) = x # decode_rle rest"
proof -
  have "decode_loop (x # rest) 0 [] = decode_loop (x # rest) 1 [x]"
    using assms by (subst decode_loop.simps) auto
  also have "\<dots> = decode_loop rest 0 [x]"
    using decode_loop_shift [of "[x]" rest 0] by simp
  finally show ?thesis by (simp add: decode_rle_eq decode_loop_acc [of rest 0 "[x]"])
qed

lemma decode_rle_Nil: "decode_rle [] = []"
  by (simp add: decode_rle_def)

lemma decode_rle_literals:
  "x \<noteq> 255 \<Longrightarrow> decode_rle (replicate n x @ rest) = replicate n x @ decode_rle rest"
  by (induction n) (simp_all add: decode_rle_literal)

lemma unat_count: "n \<le> 255 \<Longrightarrow> unat (of_nat n :: byte) = n"
  by (simp add: unat_of_nat)

lemma run_split:
  assumes "i < length data"
  shows "replicate (run_count data i 1) (data ! i) @ drop (i + run_count data i 1) data = drop i data"
proof -
  have "replicate (run_count data i 1) (data ! i) @ drop (i + run_count data i 1) data =
        take (run_count data i 1) (drop i data) @ drop (run_count data i 1) (drop i data)"
    by (simp only: run_chunk [OF assms] drop_drop add.commute)
  then show ?thesis by (simp only: append_take_drop_id)
qed

lemma decode_rle_chunk:
  assumes "i < length data" and "data ! i = 255 \<longrightarrow> run_count data i 1 > 3"
  shows "decode_rle (rle_chunk data i @ rest) = replicate (run_count data i 1) (data ! i) @ decode_rle rest"
proof (cases "run_count data i 1 > 3")
  case True
  have "run_count data i 1 \<le> 255" by (rule run_count_max) simp
  then show ?thesis using True
    by (simp add: rle_chunk_def decode_rle_escape unat_count)
next
  case False
  with assms(2) have "data ! i \<noteq> 255" by blast
  then show ?thesis using False
    by (simp add: rle_chunk_def decode_rle_literals)
qed

lemma decode_rle_loop:
  "no_literal_255 data i \<Longrightarrow> decode_rle (rle_loop data i []) = drop i data"
proof (induction "length data - i" arbitrary: i rule: less_induct)
  case less
  show ?case
  proof (cases "i < length data")
    case True
    have pos: "1 \<le> run_count data i 1" by (rule run_count_ge)
    then have dec: "length data - (i + run_count data i 1) < length data - i"
      using True by simp
    have here: "data ! i = 255 \<longrightarrow> run_count data i 1 > 3"
      and later: "no_literal_255 data (i + run_count data i 1)"
      using less.prems True by (subst (asm) no_literal_255.simps, simp)+
    have "decode_rle (rle_loop data i []) =
          replicate (run_count data i 1) (data ! i) @ decode_rle (rle_loop data (i + run_count data i 1) [])"
      by (simp only: rle_loop_unfold [OF True] decode_rle_chunk [OF True here])
    also have "\<dots> = replicate (run_count data i 1) (data ! i) @ drop (i + run_count data i 1) data"
      by (simp only: less.hyps [OF dec later])
    also have "\<dots> = drop i data" by (rule run_split [OF True])
    finally show ?thesis .
  next
    case False
    then show ?thesis by (simp add: rle_loop_stop decode_rle_Nil)
  qed
qed

lemma run_count_replicate:
  "i + count \<le> n \<Longrightarrow> count \<le> 255 \<Longrightarrow>
   run_count (replicate n v) i count = min (n - i) 255"
proof (induction "replicate n v" i count rule: run_count.induct)
  case (1 i count)
  show ?case
  proof (cases "i + count < n \<and> count < 255")
    case True
    then have "run_count (replicate n v) i count = run_count (replicate n v) i (count + 1)"
      by (subst run_count.simps) simp
    also have "\<dots> = min (n - i) 255"
      using True "1.hyps" by simp
    finally show ?thesis .
  next
    case False
    then have "run_count (replicate n v) i count = count"
      by (subst run_count.simps) auto
    then show ?thesis using False "1.prems" by auto
  qed
qed

lemma no_literal_255_stop: "\<not> i < length data \<Longrightarrow> no_literal_255 data i"
  by (subst no_literal_255.simps) (simp only: if_False)

lemma no_literal_255_absent: "255 \<notin> set data \<Longrightarrow> no_literal_255 data i"
proof (induction "length data - i" arbitrary: i rule: less_induct)
  case less
  show ?case
  proof (cases "i < length data")
    case True
    have "1 \<le> run_count data i 1" by (rule run_count_ge)
    then have dec: "length data - (i + run_count data i 1) < length data - i"
      using True by simp
    have "data ! i \<in> set data" using True by simp
    with less.prems have "data ! i \<noteq> 255" by auto
    moreover have "no_literal_255 data (i + run_count data i 1)"
      by (rule less.hyps [OF dec less.prems])
    ultimately show ?thesis using True by (subst no_literal_255.simps) simp
  next
    case False
    then show ?thesis by (rule no_literal_255_stop)
  qed
qed

text \<open>A run longer than 255 is scanned in pieces; a remainder of one to three bytes of value
  255 is emitted literally.\<close>

lemma long_run_remainder: "\<not> no_literal_255 (replicate 258 255) 0"
proof -
  have rc0: "run_count (replicate 258 255) 0 1 = 255"
    by (subst run_count_replicate) simp_all
  have rc1: "run_count (replicate 258 255) 255 1 = 3"
    by (subst run_count_replicate) simp_all
  have "\<not> no_literal_255 (replicate 258 255) 255"
    by (subst no_literal_255.simps) (simp add: rc1 [unfolded One_nat_def])
  then show ?thesis
    by (subst no_literal_255.simps) (simp add: rc0 [unfolded One_nat_def])
qed

text \<open>
  Claim C3. For every byte sequence \<open>D\<close> in which the value 255 occurs only inside runs
  that the encoder escapes (runs as the encoder scans them, capped at 255 elements),
  decoding the run-length encoding of \<open>D\<close> gives back \<open>D\<close>. Here \<open>apply_rle\<close> emits
  \<open>[255, value, count]\<close> for a scanned run of 4 to 255 equal values and the literal
  copies otherwise (\<open>rle_chunk\<close>, \<open>rle_loop_unfold\<close>), and \<open>decode_rle\<close> expands a byte
  255 that has two more bytes after it and copies every other byte
  (\<open>decode_rle_escape\<close>, \<open>decode_rle_literal\<close>).
\<close>

theorem rle_inverse_law: "no_literal_255 D 0 \<Longrightarrow> decode_rle (apply_rle D) = D"
  using decode_rle_loop [of D 0] by (simp add: apply_rle_eq)

theorem rle_inverse_law_witness:
  "no_literal_255 [1, 255, 255, 255, 255, 255, 7, 7, 7] 0 \<and>
   decode_rle (apply_rle [1, 255, 255, 255, 255, 255, 7, 7, 7]) =
     [1, 255, 255, 255, 255, 255, 7, 7, 7]"
proof -
  have h: "no_literal_255 [1, 255, 255, 255, 255, 255, 7, 7, 7] 0" by code_simp
  show ?thesis using h rle_inverse_law [OF h] by simp
qed

section \<open>The differential codec\<close>

text \<open>
  Claim C2. Differential decode should invert differential encode. On the two bytes
  200, 100 the encoder produces the differences 0, 156 (wrapping), and the decoder, which
  takes a running sum of the differences without the base and saturates instead of
  wrapping, returns 200, 156.
\<close>

theorem differential_decode_not_inverse:
  "differential [200, 100] = [0, 156] \<and>
   differential_decode 200 (differential [200, 100]) = [200, 156] \<and>
   differential_decode 200 (differential [200, 100]) \<noteq> [200, 100]"
  by (simp add: differential_def differential_decode_def clip_u8_def)

section \<open>Capacity\<close>

text \<open>
  Claim C8, as amended. The video capacity is \<open>width * height * 3\<close> and the audio
  capacity is \<open>(sample_rate div 30) * channels * 2\<close>: the divisor is the constant 30
  of the constructor, which never sees the frames-per-second value of the session.
\<close>

theorem capacities:
  "bytes_per_frame_video (init w h sr ch) = w * h * 3 \<and>
   bytes_per_frame_audio (init w h sr ch) = (sr div 30) * ch * 2 \<and>
   bytes_per_frame_total (init w h sr ch) = w * h * 3 + (sr div 30) * ch * 2"
  by (simp add: init_def Let_def)

section \<open>The empty file\<close>

text \<open>
  Claim C7. On an empty input the encode pass computes zero frames and then fails:
  \<open>np.concatenate\<close> is called on an empty list of audio arrays and raises, before the
  audio stream and the metadata are written (a zero total capacity fails even earlier,
  in the division).
\<close>

theorem encode_empty_file_raises:
  "file_to_frames_with_audio c q [] f =
     Inl (if bytes_per_frame_total c = 0 then ZeroDivisionError else ValueError)"
  by (simp add: file_to_frames_with_audio_def)

section \<open>The encode pass on a constructed converter\<close>

lemma frombuffer_even: "even (length xs) \<Longrightarrow> frombuffer_int16 xs = Inr (pairs xs)"
  by (induction xs rule: pairs.induct) simp_all

lemma length_pairs: "length (pairs xs) = length xs div 2"
  by (induction xs rule: pairs.induct) simp_all

lemma tobytes_pairs: "even (length xs) \<Longrightarrow> tobytes (pairs xs) = xs"
  by (induction xs rule: pairs.induct) simp_all

lemma length_tobytes: "length (tobytes ss) = 2 * length ss"
  by (induction ss rule: tobytes.induct) simp_all

lemma length_matrix_to_audio: "length (matrix_to_audio q m) = 2 * (m * m)"
  by (simp add: matrix_to_audio_def length_tobytes)

lemma length_frame_audio: "length (frame_audio c q data k) = bytes_per_frame_audio c"
  by (simp add: frame_audio_def full_audio_def Let_def)

lemma length_fit_video: "length (fit_video c xs) = bytes_per_frame_video c"
  by (simp add: fit_video_def)

lemma length_video_data: "length (video_data c data k) = video_data_size c data k"
  by (simp add: video_data_def video_data_size_def)

lemma video_data_size_le: "video_data_size c data k \<le> bytes_per_frame_video c"
  by (simp add: video_data_size_def)

lemma init_fields:
  "width (init w h sr ch) = w" "height (init w h sr ch) = h"
  "sample_rate (init w h sr ch) = sr" "audio_channels (init w h sr ch) = ch"
  "pixels_per_frame (init w h sr ch) = w * h"
  "bytes_per_frame_video (init w h sr ch) = w * h * 3"
  "samples_per_frame (init w h sr ch) = sr div 30"
  "bytes_per_frame_audio (init w h sr ch) = sr div 30 * ch * 2"
  "bytes_per_frame_total (init w h sr ch) = w * h * 3 + sr div 30 * ch * 2"
  by (simp_all add: init_def Let_def)

lemma encode_frame_init_cases:
  "encode_frame (init w h sr ch) q data k =
     (if w = 0 \<or> h = 0 then Inl ImageSaveError
      else Inr (frame_pixels (init w h sr ch) data k, frame_samples (init w h sr ch) q data k,
                frame_record (init w h sr ch) data k))"
proof -
  have ev: "even (length (frame_audio (init w h sr ch) q data k))"
    by (simp add: length_frame_audio init_fields)
  show ?thesis
    by (simp add: encode_frame_def create_compression_matrix_def Let_def frombuffer_even [OF ev]
        length_fit_video init_fields frame_pixels_def frame_samples_def frame_record_def
        mult.commute)
qed

lemma encode_frame_init:
  "0 < w \<Longrightarrow> 0 < h \<Longrightarrow>
   encode_frame (init w h sr ch) q data k =
     Inr (frame_pixels (init w h sr ch) data k, frame_samples (init w h sr ch) q data k,
          frame_record (init w h sr ch) data k)"
  by (simp add: encode_frame_init_cases)

lemma encode_frames_init:
  "0 < w \<Longrightarrow> 0 < h \<Longrightarrow>
   encode_frames (init w h sr ch) q data ks (F, A, M) =
     Inr (F @ map (frame_pixels (init w h sr ch) data) ks,
          A @ map (frame_samples (init w h sr ch) q data) ks,
          M @ map (frame_record (init w h sr ch) data) ks)"
  by (induction ks arbitrary: F A M) (simp_all add: encode_frame_init)

lemma total_pos: "0 < w \<Longrightarrow> 0 < h \<Longrightarrow> 0 < bytes_per_frame_total (init w h sr ch)"
  by (simp add: init_fields)

lemma frame_count_pos:
  assumes "0 < bytes_per_frame_total c" and "data \<noteq> []"
  shows "0 < frame_count c data"
proof -
  have "(0::rat) < of_nat (length data) / of_nat (bytes_per_frame_total c)"
    using assms by simp
  then show ?thesis by (simp add: frame_count_def)
qed

lemma encode_init:
  assumes w: "0 < w" and h: "0 < h" and "data \<noteq> []"
  shows "file_to_frames_with_audio (init w h sr ch) q data f = Inr (encoded (init w h sr ch) q data f)"
proof -
  have tot: "0 < bytes_per_frame_total (init w h sr ch)" by (rule total_pos [OF w h])
  have "0 < frame_count (init w h sr ch) data" by (rule frame_count_pos [OF tot assms(3)])
  then have ne: "[0..<frame_count (init w h sr ch) data] \<noteq> []" by simp
  show ?thesis
    unfolding file_to_frames_with_audio_def Let_def frame_count_def [symmetric]
    using tot ne by (simp add: encode_frames_init [OF w h] encoded_def)
qed

lemma ceiling_frames:
  assumes t: "0 < t" and up: "n \<le> k * t" and lo: "k * t < n + t"
  shows "nat \<lceil>(of_nat n :: rat) / of_nat t\<rceil> = k"
proof -
  have tpos: "(0::rat) < of_nat t" using t by simp
  have "(of_nat n :: rat) \<le> of_nat (k * t)" using up by (simp only: of_nat_le_iff)
  then have a: "(of_nat n :: rat) / of_nat t \<le> of_int (int k)"
    using tpos by (simp add: pos_divide_le_eq)
  have "(of_nat (k * t) :: rat) < of_nat (n + t)" using lo by (simp only: of_nat_less_iff)
  then have "(of_nat k - 1) * (of_nat t :: rat) < of_nat n"
    by (simp add: algebra_simps)
  then have b: "of_int (int k) - 1 < (of_nat n :: rat) / of_nat t"
    using tpos by (simp add: pos_less_divide_eq)
  have "\<lceil>(of_nat n :: rat) / of_nat t\<rceil> = int k"
    by (rule ceiling_unique [OF b a])
  then show ?thesis by simp
qed

lemma frame_count_eq:
  "0 < bytes_per_frame_total c \<Longrightarrow> length data \<le> k * bytes_per_frame_total c \<Longrightarrow>
   k * bytes_per_frame_total c < length data + bytes_per_frame_total c \<Longrightarrow> frame_count c data = k"
  unfolding frame_count_def by (rule ceiling_frames)

lemma length_compressed_le:
  "length (apply_rle (differential (video_data c data k))) \<le> video_data_size c data k"
proof -
  have "length (differential xs) = length xs" for xs :: "byte list"
  proof -
    have "length (np_diff ys) = length ys - 1" for ys
      by (induction ys rule: np_diff.induct) simp_all
    then show ?thesis by (simp add: differential_def)
  qed
  then show ?thesis
    using length_apply_rle [of "differential (video_data c data k)"]
    by (simp add: length_video_data)
qed

lemma take_fit_video:
  assumes "length xs \<le> n" and "n \<le> bytes_per_frame_video c"
  shows "take n (fit_video c xs) = xs @ replicate (n - length xs) 0"
  using assms by (auto simp add: fit_video_def min_def)

lemma compressed_bytes_frame:
  "compressed_bytes (frame_pixels c data k) (frame_record c data k) =
     apply_rle (differential (video_data c data k)) @
       replicate (video_data_size c data k - length (apply_rle (differential (video_data c data k)))) 0"
  by (simp add: compressed_bytes_def frame_pixels_def frame_record_def
      take_fit_video [OF length_compressed_le video_data_size_le])

lemma frame_record_fields:
  "frame_idx (frame_record c data k) = k"
  "video_bytes (frame_record c data k) = video_data_size c data k"
  "audio_bytes (frame_record c data k) = length (audio_data c data k)"
  "original_length (compression (frame_record c data k)) = video_data_size c data k"
  "compressed_length (compression (frame_record c data k)) =
     length (apply_rle (differential (video_data c data k)))"
  "matrix_size (compression (frame_record c data k)) = default_matrix_size"
  "differential_base (compression (frame_record c data k)) =
     (if video_data_size c data k > 0 then unat (video_data c data k ! 0) else 0)"
  "compression_ratio (compression (frame_record c data k)) =
     (if video_data_size c data k > 0
      then of_nat (length (apply_rle (differential (video_data c data k)))) /
           of_nat (video_data_size c data k) else 1)"
  by (simp_all add: frame_record_def create_compression_matrix_def Let_def length_video_data)

lemma compression_ratio_le_1: "compression_ratio (compression (frame_record c data k)) \<le> 1"
  using length_compressed_le [of c data k]
  by (simp add: frame_record_fields)

lemma encoded_fields:
  "frame_files (encoded c q data f) = map (frame_pixels c data) [0..<frame_count c data]"
  "audio_raw (encoded c q data f) = concat (map (frame_samples c q data) [0..<frame_count c data])"
  "frames (metadata_json (encoded c q data f)) = map (frame_record c data) [0..<frame_count c data]"
  "num_frames (metadata_json (encoded c q data f)) = frame_count c data"
  "fps (metadata_json (encoded c q data f)) = f"
  "original_size (metadata_json (encoded c q data f)) = length data"
  by (simp_all add: encoded_def)

lemma frame_count_Nil: "frame_count c [] = 0"
  by (simp add: frame_count_def)

section \<open>Compressed payload against the frame capacity\<close>

lemma frame_pixels_no_truncation:
  "frame_pixels c data k =
     apply_rle (differential (video_data c data k)) @
     replicate (bytes_per_frame_video c - length (apply_rle (differential (video_data c data k)))) 0"
proof -
  have "take (bytes_per_frame_video c) (fit_video c (apply_rle (differential (video_data c data k)))) =
        apply_rle (differential (video_data c data k)) @
        replicate (bytes_per_frame_video c - length (apply_rle (differential (video_data c data k)))) 0"
    using length_compressed_le [of c data k] video_data_size_le [of c data k]
    by (intro take_fit_video) simp_all
  then show ?thesis
    using length_fit_video [of c "apply_rle (differential (video_data c data k))"]
    by (simp add: frame_pixels_def)
qed

text \<open>
  Claim C6, as amended. For every geometry with positive width and height and every
  frame, the run-length output is no longer than the video slice it compresses (a run is
  escaped only when the three-byte triple is shorter than the run), and the slice is no
  longer than the video capacity. So the compressed payload always fits: the pixel frame
  is the whole payload followed by zero padding, nothing is truncated, and the recorded
  compression ratio is at most 1.
\<close>

theorem compressed_within_capacity:
  assumes w: "0 < w" and h: "0 < h"
  shows "\<exists>pixels audio_samples fm.
     encode_frame (init w h sr ch) q data k = Inr (pixels, audio_samples, fm) \<and>
     compressed_length (compression fm) =
       length (apply_rle (differential (video_data (init w h sr ch) data k))) \<and>
     compressed_length (compression fm) \<le> original_length (compression fm) \<and>
     original_length (compression fm) \<le> bytes_per_frame_video (init w h sr ch) \<and>
     compression_ratio (compression fm) \<le> 1 \<and>
     pixels = apply_rle (differential (video_data (init w h sr ch) data k)) @
       replicate (bytes_per_frame_video (init w h sr ch) - compressed_length (compression fm)) 0"
proof -
  let ?c = "init w h sr ch"
  have a: "compressed_length (compression (frame_record ?c data k)) =
      length (apply_rle (differential (video_data ?c data k)))"
    by (simp add: frame_record_fields)
  have b: "compressed_length (compression (frame_record ?c data k)) \<le>
      original_length (compression (frame_record ?c data k))"
    using length_compressed_le [of ?c data k] by (simp add: frame_record_fields)
  have c: "original_length (compression (frame_record ?c data k)) \<le> bytes_per_frame_video ?c"
    using video_data_size_le [of ?c data k] by (simp add: frame_record_fields)
  have d: "frame_pixels ?c data k = apply_rle (differential (video_data ?c data k)) @
       replicate (bytes_per_frame_video ?c - compressed_length (compression (frame_record ?c data k))) 0"
    by (simp only: a) (rule frame_pixels_no_truncation)
  show ?thesis
    apply (rule exI [of _ "frame_pixels ?c data k"])
    apply (rule exI [of _ "frame_samples ?c q data k"])
    apply (rule exI [of _ "frame_record ?c data k"])
    apply (intro conjI)
         apply (rule encode_frame_init [OF w h] a b c d compression_ratio_le_1)+
    done
qed

theorem compressed_within_capacity_witness:
  "0 < (1920::nat) \<and> 0 < (1080::nat) \<and>
   (\<exists>pixels audio_samples fm.
     encode_frame (init 1920 1080 48000 2) (\<lambda>j. (0, 0)) [7, 7, 7, 7, 7, 7] 0 =
       Inr (pixels, audio_samples, fm) \<and>
     compressed_length (compression fm) =
       length (apply_rle (differential (video_data (init 1920 1080 48000 2) [7, 7, 7, 7, 7, 7] 0))) \<and>
     compressed_length (compression fm) \<le> original_length (compression fm) \<and>
     original_length (compression fm) \<le> bytes_per_frame_video (init 1920 1080 48000 2) \<and>
     compression_ratio (compression fm) \<le> 1 \<and>
     pixels = apply_rle (differential (video_data (init 1920 1080 48000 2) [7, 7, 7, 7, 7, 7] 0)) @
       replicate (bytes_per_frame_video (init 1920 1080 48000 2) - compressed_length (compression fm)) 0)"
proof -
  have w: "0 < (1920::nat)" and h: "0 < (1080::nat)" by simp_all
  show ?thesis
    using w h compressed_within_capacity [OF w h, of 48000 2 "\<lambda>j. (0, 0)" "[7, 7, 7, 7, 7, 7]" 0]
    by blast
qed

text \<open>
  Claim C6 as stated asks for an input and a geometry for which the compressed payload of
  some frame exceeds the video capacity. There is none.
\<close>

theorem no_capacity_exhausted:
  "\<not> (\<exists>w h sr ch q data k pixels audio_samples fm.
       encode_frame (init w h sr ch) q data k = Inr (pixels, audio_samples, fm) \<and>
       bytes_per_frame_video (init w h sr ch) < compressed_length (compression fm))"
proof
  assume "\<exists>w h sr ch q data k pixels audio_samples fm.
       encode_frame (init w h sr ch) q data k = Inr (pixels, audio_samples, fm) \<and>
       bytes_per_frame_video (init w h sr ch) < compressed_length (compression fm)"
  then obtain w h sr ch q data k pixels audio_samples fm
    where e: "encode_frame (init w h sr ch) q data k = Inr (pixels, audio_samples, fm)"
      and l: "bytes_per_frame_video (init w h sr ch) < compressed_length (compression fm)"
    by blast
  from e have "fm = frame_record (init w h sr ch) data k"
    by (simp add: encode_frame_init_cases split: if_splits)
  with l have "bytes_per_frame_video (init w h sr ch) <
      length (apply_rle (differential (video_data (init w h sr ch) data k)))"
    by (simp add: frame_record_fields)
  then show False
    using length_compressed_le [of "init w h sr ch" data k]
      video_data_size_le [of "init w h sr ch" data k] by simp
qed

section \<open>The decode pass on encoded artifacts\<close>

lemma length_frame_samples:
  "length (frame_samples c q data k) = bytes_per_frame_audio c div 2"
  by (simp add: frame_samples_def length_pairs length_frame_audio)

lemma length_concat_frame_samples:
  "length (concat (map (frame_samples c q data) ks)) = length ks * (bytes_per_frame_audio c div 2)"
  by (induction ks) (simp_all add: length_frame_samples)

lemma length_audio_raw:
  "length (audio_raw (encoded c q data f)) = frame_count c data * (bytes_per_frame_audio c div 2)"
  by (simp add: encoded_fields length_concat_frame_samples)

lemma decode_frame_encoded:
  assumes k: "k < frame_count c data"
    and au: "off + default_matrix_size * default_matrix_size \<le> length (audio_raw (encoded c q data f))"
  shows "decode_frame c (encoded c q data f) k (off, out) =
     Inr (off + samples_per_frame c,
          out @
          take (video_data_size c data k)
            (differential_decode (differential_base (compression (frame_record c data k)))
               (decode_rle (compressed_bytes (frame_pixels c data k) (frame_record c data k)))) @
          take (length (audio_data c data k))
            (tobytes (slice (audio_raw (encoded c q data f))
               (off + default_matrix_size * default_matrix_size)
               (off + default_matrix_size * default_matrix_size + length (audio_data c data k) div 2))))"
proof -
  have fm: "frames (metadata_json (encoded c q data f)) ! k = frame_record c data k"
    and px: "frame_files (encoded c q data f) ! k = frame_pixels c data k"
    and l1: "k < length (frames (metadata_json (encoded c q data f)))"
    and l2: "k < length (frame_files (encoded c q data f))"
    using k by (simp_all add: encoded_fields)
  have m: "audio_to_matrix
      (slice (audio_raw (encoded c q data f)) off (off + default_matrix_size * default_matrix_size))
      default_matrix_size = Inr ()"
    using au by (simp add: audio_to_matrix_def slice_def)
  show ?thesis
    using l1 l2
    by (simp add: decode_frame_def Let_def fm px m frame_record_fields)
qed

lemma decode_frames_append:
  "decode_frames c art (xs @ ys) st =
     (case decode_frames c art xs st of Inl e \<Rightarrow> Inl e | Inr st' \<Rightarrow> decode_frames c art ys st')"
  by (induction xs arbitrary: st) (simp_all split: sum.splits)

lemma decode_cursor:
  assumes m: "default_matrix_size * default_matrix_size \<le> bytes_per_frame_audio c div 2"
    and s: "samples_per_frame c \<le> bytes_per_frame_audio c div 2"
  shows "k \<le> frame_count c data \<Longrightarrow>
     \<exists>out. decode_frames c (encoded c q data f) [0..<k] (0, []) = Inr (k * samples_per_frame c, out)"
proof (induction k)
  case 0
  then show ?case by simp
next
  case (Suc k)
  then obtain out where
    o: "decode_frames c (encoded c q data f) [0..<k] (0, []) = Inr (k * samples_per_frame c, out)"
    by auto
  have k: "k < frame_count c data" using Suc.prems by simp
  have "k * samples_per_frame c \<le> k * (bytes_per_frame_audio c div 2)"
    using s by (rule mult_le_mono2)
  then have "k * samples_per_frame c + default_matrix_size * default_matrix_size
      \<le> k * (bytes_per_frame_audio c div 2) + bytes_per_frame_audio c div 2"
    using m by (rule add_le_mono)
  then have "k * samples_per_frame c + default_matrix_size * default_matrix_size
      \<le> Suc k * (bytes_per_frame_audio c div 2)"
    by (simp only: mult_Suc add.commute)
  also have "\<dots> \<le> frame_count c data * (bytes_per_frame_audio c div 2)"
    using k by (intro mult_le_mono1) simp
  finally have au: "k * samples_per_frame c + default_matrix_size * default_matrix_size
      \<le> length (audio_raw (encoded c q data f))"
    by (simp only: length_audio_raw)
  show ?case
    by (simp only: upt_Suc_append [OF le0] decode_frames_append o sum.case
        decode_frames.simps decode_frame_encoded [OF k au])
       (simp add: add.commute)
qed

section \<open>What the decode pass feeds to the run-length decoder\<close>

lemma decode_frame_encoded_fail:
  assumes k: "k < frame_count c data"
    and au: "\<not> off + default_matrix_size * default_matrix_size \<le> length (audio_raw (encoded c q data f))"
  shows "decode_frame c (encoded c q data f) k (off, out) = Inl ValueError"
proof -
  have l1: "k < length (frames (metadata_json (encoded c q data f)))"
    and l2: "k < length (frame_files (encoded c q data f))"
    and fm: "frames (metadata_json (encoded c q data f)) ! k = frame_record c data k"
    using k by (simp_all add: encoded_fields)
  have m: "audio_to_matrix
      (slice (audio_raw (encoded c q data f)) off (off + default_matrix_size * default_matrix_size))
      default_matrix_size = Inl ValueError"
    using au by (simp add: audio_to_matrix_def slice_def default_matrix_size_def)
  show ?thesis
    using l1 l2 by (simp add: decode_frame_def Let_def fm m frame_record_fields)
qed

text \<open>
  Claim C10. For every frame \<open>k\<close> of an encoded file (positive width and height), one
  iteration of the decode loop, started with any cursor and any output so far, raises
  when the matrix samples are not all there, and otherwise appends the
  differential decode of \<open>decode_rle\<close> applied to the first \<open>video_bytes\<close> bytes of the
  saved pixel frame, cut to \<open>original_length\<close>, followed by the overflow bytes. Here
  \<open>video_bytes\<close> is the length of the video slice before compression,
  \<open>min (slice length) (video capacity)\<close>, equal to \<open>original_length\<close> and not to
  \<open>compressed_length\<close>. Since the compressed payload is never longer than the slice, the
  bytes given to \<open>decode_rle\<close> are the compressed payload followed by
  \<open>original_length - compressed_length\<close> zero bytes of padding.
\<close>

theorem rle_decode_input:
  assumes w: "0 < w" and h: "0 < h"
    and k: "k < frame_count (init w h sr ch) data"
  shows "\<exists>art. file_to_frames_with_audio (init w h sr ch) q data f = Inr art \<and>
     video_bytes (frames (metadata_json art) ! k) =
       min (length (frame_total_data (init w h sr ch) data k)) (bytes_per_frame_video (init w h sr ch)) \<and>
     original_length (compression (frames (metadata_json art) ! k)) =
       video_bytes (frames (metadata_json art) ! k) \<and>
     compressed_length (compression (frames (metadata_json art) ! k)) =
       length (apply_rle (differential (video_data (init w h sr ch) data k))) \<and>
     compressed_length (compression (frames (metadata_json art) ! k)) \<le>
       original_length (compression (frames (metadata_json art) ! k)) \<and>
     take (video_bytes (frames (metadata_json art) ! k)) (frame_files art ! k) =
       apply_rle (differential (video_data (init w h sr ch) data k)) @
       replicate (original_length (compression (frames (metadata_json art) ! k)) -
                  compressed_length (compression (frames (metadata_json art) ! k))) 0 \<and>
     decode_frame (init w h sr ch) art k (off, out) =
       (if off + default_matrix_size * default_matrix_size \<le> length (audio_raw art)
        then Inr (off + samples_per_frame (init w h sr ch),
               out @
               take (original_length (compression (frames (metadata_json art) ! k)))
                 (differential_decode (differential_base (compression (frames (metadata_json art) ! k)))
                    (decode_rle
                       (take (video_bytes (frames (metadata_json art) ! k)) (frame_files art ! k)))) @
               take (audio_bytes (frames (metadata_json art) ! k))
                 (tobytes (slice (audio_raw art)
                    (off + default_matrix_size * default_matrix_size)
                    (off + default_matrix_size * default_matrix_size +
                     audio_bytes (frames (metadata_json art) ! k) div 2))))
        else Inl ValueError)"
proof -
  let ?c = "init w h sr ch"
  let ?art = "encoded ?c q data f"
  let ?m2 = "default_matrix_size * default_matrix_size"
  have ne: "data \<noteq> []" using k by (auto simp add: frame_count_Nil)
  have enc: "file_to_frames_with_audio ?c q data f = Inr ?art"
    by (rule encode_init [OF w h ne])
  have fm: "frames (metadata_json ?art) ! k = frame_record ?c data k"
    and px: "frame_files ?art ! k = frame_pixels ?c data k"
    using k by (simp_all add: encoded_fields)
  have a: "video_bytes (frame_record ?c data k) =
      min (length (frame_total_data ?c data k)) (bytes_per_frame_video ?c)"
    by (simp add: frame_record_fields video_data_size_def)
  have b: "original_length (compression (frame_record ?c data k)) =
      video_bytes (frame_record ?c data k)"
    by (simp add: frame_record_fields)
  have c: "compressed_length (compression (frame_record ?c data k)) =
      length (apply_rle (differential (video_data ?c data k)))"
    by (simp add: frame_record_fields)
  have d: "compressed_length (compression (frame_record ?c data k)) \<le>
      original_length (compression (frame_record ?c data k))"
    using length_compressed_le [of ?c data k] by (simp add: frame_record_fields)
  have g: "take (video_bytes (frame_record ?c data k)) (frame_pixels ?c data k) =
      apply_rle (differential (video_data ?c data k)) @
      replicate (original_length (compression (frame_record ?c data k)) -
                 compressed_length (compression (frame_record ?c data k))) 0"
    using compressed_bytes_frame [of ?c data k]
    by (simp add: compressed_bytes_def frame_record_fields)
  have e: "decode_frame ?c ?art k (off, out) =
       (if off + ?m2 \<le> length (audio_raw ?art)
        then Inr (off + samples_per_frame ?c,
               out @
               take (original_length (compression (frame_record ?c data k)))
                 (differential_decode (differential_base (compression (frame_record ?c data k)))
                    (decode_rle
                       (take (video_bytes (frame_record ?c data k)) (frame_pixels ?c data k)))) @
               take (audio_bytes (frame_record ?c data k))
                 (tobytes (slice (audio_raw ?art) (off + ?m2)
                    (off + ?m2 + audio_bytes (frame_record ?c data k) div 2))))
        else Inl ValueError)"
  proof (cases "off + ?m2 \<le> length (audio_raw ?art)")
    case True
    have "decode_frame ?c ?art k (off, out) =
        Inr (off + samples_per_frame ?c,
          out @
          take (video_data_size ?c data k)
            (differential_decode (differential_base (compression (frame_record ?c data k)))
               (decode_rle (compressed_bytes (frame_pixels ?c data k) (frame_record ?c data k)))) @
          take (length (audio_data ?c data k))
            (tobytes (slice (audio_raw ?art) (off + ?m2)
               (off + ?m2 + length (audio_data ?c data k) div 2))))"
      by (rule decode_frame_encoded [OF k True])
    then show ?thesis
      using True by (simp add: compressed_bytes_def frame_record_fields)
  next
    case False
    then show ?thesis by (simp add: decode_frame_encoded_fail [OF k False])
  qed
  show ?thesis
    apply (rule exI [of _ ?art])
    apply (simp only: fm px)
    apply (intro conjI)
          apply (rule enc a b c d g e)+
    done
qed

theorem rle_decode_input_witness:
  "0 < (1920::nat) \<and> 0 < (1080::nat) \<and>
   0 < frame_count (init 1920 1080 48000 2) [65, 65, 65, 65, 65] \<and>
   (\<exists>art. file_to_frames_with_audio (init 1920 1080 48000 2) (\<lambda>j. (0, 0)) [65, 65, 65, 65, 65] 30 = Inr art \<and>
     video_bytes (frames (metadata_json art) ! 0) =
       min (length (frame_total_data (init 1920 1080 48000 2) [65, 65, 65, 65, 65] 0)) (bytes_per_frame_video (init 1920 1080 48000 2)) \<and>
     original_length (compression (frames (metadata_json art) ! 0)) =
       video_bytes (frames (metadata_json art) ! 0) \<and>
     compressed_length (compression (frames (metadata_json art) ! 0)) =
       length (apply_rle (differential (video_data (init 1920 1080 48000 2) [65, 65, 65, 65, 65] 0))) \<and>
     compressed_length (compression (frames (metadata_json art) ! 0)) \<le>
       original_length (compression (frames (metadata_json art) ! 0)) \<and>
     take (video_bytes (frames (metadata_json art) ! 0)) (frame_files art ! 0) =
       apply_rle (differential (video_data (init 1920 1080 48000 2) [65, 65, 65, 65, 65] 0)) @
       replicate (original_length (compression (frames (metadata_json art) ! 0)) -
                  compressed_length (compression (frames (metadata_json art) ! 0))) 0 \<and>
     decode_frame (init 1920 1080 48000 2) art 0 (0, []) =
       (if 0 + default_matrix_size * default_matrix_size \<le> length (audio_raw art)
        then Inr (0 + samples_per_frame (init 1920 1080 48000 2),
               [] @
               take (original_length (compression (frames (metadata_json art) ! 0)))
                 (differential_decode (differential_base (compression (frames (metadata_json art) ! 0)))
                    (decode_rle
                       (take (video_bytes (frames (metadata_json art) ! 0)) (frame_files art ! 0)))) @
               take (audio_bytes (frames (metadata_json art) ! 0))
                 (tobytes (slice (audio_raw art)
                    (0 + default_matrix_size * default_matrix_size)
                    (0 + default_matrix_size * default_matrix_size +
                     audio_bytes (frames (metadata_json art) ! 0) div 2))))
        else Inl ValueError))"
proof -
  have w: "0 < (1920::nat)" and h: "0 < (1080::nat)" by simp_all
  have "frame_count (init 1920 1080 48000 2) [65, 65, 65, 65, 65] = 1"
    by (rule frame_count_eq) (simp_all add: init_fields)
  then have k: "0 < frame_count (init 1920 1080 48000 2) [65, 65, 65, 65, 65]" by simp
  show ?thesis
    using w h k rle_decode_input [OF w h k, of "\<lambda>j. (0, 0)" 30 0 "[]"] by blast
qed

section \<open>The audio cursor\<close>

lemma audio_block:
  assumes "k < n"
  shows "take (bytes_per_frame_audio c div 2)
           (drop (k * (bytes_per_frame_audio c div 2)) (concat (map (frame_samples c q data) [0..<n]))) =
         frame_samples c q data k"
proof -
  have "[0..<n] = [0..<k] @ [k..<n]"
    using assms upt_add_eq_append [of 0 k "n - k"] by simp
  also have "[k..<n] = k # [Suc k..<n]"
    using assms by (rule upt_conv_Cons)
  finally have "[0..<n] = [0..<k] @ k # [Suc k..<n]" .
  then have "concat (map (frame_samples c q data) [0..<n]) =
      concat (map (frame_samples c q data) [0..<k]) @ frame_samples c q data k @
      concat (map (frame_samples c q data) [Suc k..<n])"
    by simp
  moreover have "length (concat (map (frame_samples c q data) [0..<k])) = k * (bytes_per_frame_audio c div 2)"
    by (simp add: length_concat_frame_samples)
  ultimately show ?thesis
    by (simp add: length_frame_samples)
qed

text \<open>
  Claim C5. The decode cursor should stand, at the start of frame \<open>k\<close>, where the encoder
  wrote the first audio sample of frame \<open>k\<close>. For a geometry with positive width and
  height (so that every frame image can be saved), each encoded frame appends
  \<open>samples_per_frame * channels\<close> 16-bit samples to the audio stream, so the block of
  frame \<open>k\<close> starts at sample \<open>k * samples_per_frame * channels\<close>; the decoder advances
  its cursor by \<open>samples_per_frame\<close> per frame and stands at \<open>k * samples_per_frame\<close>.
  The two agree for one channel only (or at frame 0): with the default two channels the
  cursor of frame 1 is 1600 while its audio block starts at 3200.
\<close>

theorem audio_cursor_positions:
  assumes w: "0 < w" and h: "0 < h" and ch: "0 < ch"
    and ms: "default_matrix_size * default_matrix_size \<le> sr div 30"
    and k: "k < frame_count (init w h sr ch) data"
  shows "\<exists>art files all_audio_data fms out.
     file_to_frames_with_audio (init w h sr ch) q data f = Inr art \<and>
     encode_frames (init w h sr ch) q data [0..<k] ([], [], []) = Inr (files, all_audio_data, fms) \<and>
     length (concat all_audio_data) =
       k * (samples_per_frame (init w h sr ch) * audio_channels (init w h sr ch)) \<and>
     take (samples_per_frame (init w h sr ch) * audio_channels (init w h sr ch))
       (drop (k * (samples_per_frame (init w h sr ch) * audio_channels (init w h sr ch)))
          (audio_raw art)) = frame_samples (init w h sr ch) q data k \<and>
     decode_frames (init w h sr ch) art [0..<k] (0, []) =
       Inr (k * samples_per_frame (init w h sr ch), out)"
proof -
  let ?c = "init w h sr ch"
  have half: "bytes_per_frame_audio ?c div 2 = samples_per_frame ?c * audio_channels ?c"
    by (simp add: init_fields)
  have spf: "samples_per_frame ?c \<le> bytes_per_frame_audio ?c div 2"
    using ch by (simp add: half init_fields)
  have "default_matrix_size * default_matrix_size \<le> samples_per_frame ?c"
    using ms by (simp add: init_fields)
  then have m: "default_matrix_size * default_matrix_size \<le> bytes_per_frame_audio ?c div 2"
    using spf by (rule order_trans)
  have "0 < sr div 30" using ms by (simp add: default_matrix_size_def)
  then have tot: "0 < bytes_per_frame_total ?c" using ch by (simp add: init_fields)
  have ne: "data \<noteq> []" using k by (auto simp add: frame_count_Nil)
  obtain out where d: "decode_frames ?c (encoded ?c q data f) [0..<k] (0, []) =
      Inr (k * samples_per_frame ?c, out)"
    using decode_cursor [OF m spf, of k data q f] k by auto
  have a: "file_to_frames_with_audio ?c q data f = Inr (encoded ?c q data f)"
    by (rule encode_init [OF w h ne])
  have b: "encode_frames ?c q data [0..<k] ([], [], []) =
      Inr (map (frame_pixels ?c data) [0..<k], map (frame_samples ?c q data) [0..<k],
           map (frame_record ?c data) [0..<k])"
    by (simp add: encode_frames_init [OF w h])
  have e: "length (concat (map (frame_samples ?c q data) [0..<k])) =
      k * (samples_per_frame ?c * audio_channels ?c)"
    by (simp add: length_concat_frame_samples half)
  have g: "take (samples_per_frame ?c * audio_channels ?c)
       (drop (k * (samples_per_frame ?c * audio_channels ?c)) (audio_raw (encoded ?c q data f))) =
       frame_samples ?c q data k"
    using audio_block [OF k, of ?c q] by (simp only: half encoded_fields)
  show ?thesis
    apply (rule exI [of _ "encoded ?c q data f"])
    apply (rule exI [of _ "map (frame_pixels ?c data) [0..<k]"])
    apply (rule exI [of _ "map (frame_samples ?c q data) [0..<k]"])
    apply (rule exI [of _ "map (frame_record ?c data) [0..<k]"])
    apply (rule exI [of _ out])
    apply (intro conjI)
        apply (rule a b e g d)+
    done
qed

theorem audio_cursor_positions_witness:
  "0 < (1920::nat) \<and> 0 < (1080::nat) \<and> 0 < (2::nat) \<and> default_matrix_size * default_matrix_size \<le> 48000 div 30 \<and>
   1 < frame_count (init 1920 1080 48000 2) (replicate 6227201 7) \<and>
   (\<exists>art files all_audio_data fms out.
     file_to_frames_with_audio (init 1920 1080 48000 2) (\<lambda>j. (0, 0)) (replicate 6227201 7) 30 = Inr art \<and>
     encode_frames (init 1920 1080 48000 2) (\<lambda>j. (0, 0)) (replicate 6227201 7) [0..<1] ([], [], []) =
       Inr (files, all_audio_data, fms) \<and>
     length (concat all_audio_data) = 3200 \<and>
     take 3200 (drop 3200 (audio_raw art)) =
       frame_samples (init 1920 1080 48000 2) (\<lambda>j. (0, 0)) (replicate 6227201 7) 1 \<and>
     decode_frames (init 1920 1080 48000 2) art [0..<1] (0, []) = Inr (1600, out))"
proof -
  have w: "0 < (1920::nat)" and h: "0 < (1080::nat)" by simp_all
  have a: "0 < (2::nat)" by simp
  have b: "default_matrix_size * default_matrix_size \<le> 48000 div 30"
    by (simp add: default_matrix_size_def)
  have "frame_count (init 1920 1080 48000 2) (replicate 6227201 7) = 2"
    by (rule frame_count_eq) (simp_all add: init_fields)
  then have c: "1 < frame_count (init 1920 1080 48000 2) (replicate 6227201 7)" by simp
  show ?thesis
    using a b c audio_cursor_positions [OF w h a b c, of "\<lambda>j. (0, 0)" 30]
    by (simp add: init_fields)
qed

section \<open>The round trip\<close>

lemma frame_total_data_0:
  "length data \<le> bytes_per_frame_total c \<Longrightarrow> frame_total_data c data 0 = data"
  by (simp add: frame_total_data_def slice_def Let_def)

lemma first_frame_video_only:
  assumes "length data \<le> bytes_per_frame_video c"
    and "bytes_per_frame_video c \<le> bytes_per_frame_total c"
  shows "video_data_size c data 0 = length data"
    and "video_data c data 0 = data"
    and "audio_data c data 0 = []"
  using assms
  by (simp_all add: video_data_size_def video_data_def audio_data_def frame_total_data_0)

lemma video_le_total: "bytes_per_frame_video (init w h sr ch) \<le> bytes_per_frame_total (init w h sr ch)"
  by (simp add: init_fields)

lemma apply_rle_00: "apply_rle [0, 0] = [0, 0]"
  by code_simp

lemma decode_rle_00: "decode_rle [0, 0] = [0, 0]"
  by code_simp

text \<open>
  Claim C1. Decoding the artifacts of an encoded file should give the file back whenever
  every frame's compression ratio is at most 1. For the two-byte file \<open>AA\<close> at the
  default geometry the encode pass writes one frame with ratio 1, and the decode pass
  returns the bytes 65, 0: the running sum of the differences leaves out the base byte
  after position 0.
\<close>

theorem round_trip_fails:
  "\<exists>art. file_to_frames_with_audio default_converter q [65, 65] f = Inr art \<and>
     num_frames (metadata_json art) = 1 \<and>
     compression_ratio (compression (frames (metadata_json art) ! 0)) \<le> 1 \<and>
     frames_with_audio_to_file default_converter art = Inr [65, 0]"
proof -
  let ?c = "init 1920 1080 48000 2"
  let ?d = "[65, 65] :: byte list"
  let ?art = "encoded ?c q ?d f"
  have tot: "0 < bytes_per_frame_total ?c" by (simp add: init_fields)
  have enc: "file_to_frames_with_audio ?c q ?d f = Inr ?art"
    by (rule encode_init) simp_all
  have n: "frame_count ?c ?d = 1"
    by (rule frame_count_eq) (simp_all add: init_fields)
  have small: "length ?d \<le> bytes_per_frame_video ?c" by (simp add: init_fields)
  note ff = first_frame_video_only [OF small video_le_total]
  have k: "0 < frame_count ?c ?d" by (simp add: n)
  have au: "0 + default_matrix_size * default_matrix_size \<le> length (audio_raw ?art)"
    by (simp add: length_audio_raw n init_fields default_matrix_size_def)
  have diff: "differential ?d = [0, 0]" by (simp add: differential_def)
  have cb: "compressed_bytes (frame_pixels ?c ?d 0) (frame_record ?c ?d 0) = [0, 0]"
    by (simp add: compressed_bytes_frame ff diff apply_rle_00)
  have base: "differential_base (compression (frame_record ?c ?d 0)) = 65"
    by (simp add: frame_record_fields ff)
  have dd: "differential_decode 65 [0, 0] = [65, 0]"
    by (simp add: differential_decode_def clip_u8_def)
  have df: "decode_frame ?c ?art 0 (0, []) = Inr (samples_per_frame ?c, [65, 0])"
    by (simp add: decode_frame_encoded [OF k au] cb base decode_rle_00 dd ff)
  have one: "[0..<1] = [0::nat]" by simp
  have dfs: "decode_frames ?c ?art [0..<1] (0, []) = Inr (samples_per_frame ?c, [65, 0])"
    by (simp only: one decode_frames.simps df sum.case)
  have dec: "frames_with_audio_to_file ?c ?art = Inr [65, 0]"
    unfolding frames_with_audio_to_file_def Let_def encoded_fields n dfs
    by simp
  have nf: "num_frames (metadata_json ?art) = 1" by (simp add: encoded_fields n)
  have cr: "compression_ratio (compression (frames (metadata_json ?art) ! 0)) \<le> 1"
    by (simp add: encoded_fields n compression_ratio_le_1 del: upt_Suc)
  show ?thesis
    unfolding default_converter_def
    apply (rule exI [of _ ?art])
    apply (intro conjI)
       apply (rule enc nf cr dec)+
    done
qed

section \<open>The audio capacity and the frames-per-second value\<close>

text \<open>
  Claim C8 as stated takes the divisor of the audio capacity from the session's
  frames-per-second value. A session encoded with \<open>fps = 60\<close> at the default geometry
  records 60 in its metadata, yet its audio capacity is 6400 bytes per frame, not
  \<open>(48000 div 60) * 2 * 2 = 3200\<close>.
\<close>

theorem audio_capacity_not_from_fps:
  "\<exists>art. file_to_frames_with_audio default_converter (\<lambda>j. (0, 0)) [65] 60 = Inr art \<and>
     fps (metadata_json art) = 60 \<and>
     bytes_per_frame_audio default_converter = 6400 \<and>
     bytes_per_frame_audio default_converter \<noteq>
       (meta_sample_rate (metadata_json art) div fps (metadata_json art)) *
          meta_audio_channels (metadata_json art) * 2 \<and>
     (meta_sample_rate (metadata_json art) div fps (metadata_json art)) *
        meta_audio_channels (metadata_json art) * 2 = 3200"
proof -
  let ?c = "init 1920 1080 48000 2"
  have tot: "0 < bytes_per_frame_total ?c" by (simp add: init_fields)
  have enc: "file_to_frames_with_audio ?c (\<lambda>j. (0, 0)) [65] 60 = Inr (encoded ?c (\<lambda>j. (0, 0)) [65] 60)"
    by (rule encode_init) simp_all
  show ?thesis
    unfolding default_converter_def
    by (rule exI [of _ "encoded ?c (\<lambda>j. (0, 0)) [65] 60"])
       (simp add: enc encoded_def init_fields)
qed

section \<open>The audio buffer of a frame\<close>

lemma tobytes_frame_samples:
  "tobytes (frame_samples (init w h sr ch) q data k) = frame_audio (init w h sr ch) q data k"
proof -
  have "even (length (frame_audio (init w h sr ch) q data k))"
    by (simp add: length_frame_audio init_fields)
  then show ?thesis by (simp add: frame_samples_def tobytes_pairs)
qed

text \<open>
  Claim C4. The overflow slice of a frame should fit beside the matrix in the audio
  buffer, so that no overflow byte is lost. The slice is cut to the whole audio capacity
  instead: for a file that fills one frame at the default geometry (6220800 video bytes,
  then 5888 bytes of value 1 and 512 bytes of value 2) the overflow slice has 6400 bytes,
  512 more than the 5888 left after the matrix, and the emitted buffer is the 512 matrix
  bytes followed by the 5888 bytes of value 1. The last 512 overflow bytes are not in it,
  while the frame's metadata records 6400 audio bytes.
\<close>

theorem overflow_bytes_discarded:
  "\<exists>pixels audio_samples fm.
     encode_frame default_converter q
       (replicate 6220800 0 @ replicate 5888 1 @ replicate 512 2) 0 =
       Inr (pixels, audio_samples, fm) \<and>
     audio_data default_converter (replicate 6220800 0 @ replicate 5888 1 @ replicate 512 2) 0 =
       replicate 5888 1 @ replicate 512 2 \<and>
     audio_bytes fm = 6400 \<and>
     bytes_per_frame_audio default_converter - 2 * (default_matrix_size * default_matrix_size) = 5888 \<and>
     length (tobytes audio_samples) = bytes_per_frame_audio default_converter \<and>
     tobytes audio_samples = matrix_to_audio q default_matrix_size @ replicate 5888 1"
proof -
  let ?c = "init 1920 1080 48000 2"
  let ?d = "replicate 6220800 0 @ replicate 5888 1 @ replicate 512 2 :: byte list"
  have ftd: "frame_total_data ?c ?d 0 = ?d"
    by (rule frame_total_data_0) (simp add: init_fields)
  have vds: "video_data_size ?c ?d 0 = 6220800"
    by (simp add: video_data_size_def ftd init_fields)
  have ad: "audio_data ?c ?d 0 = replicate 5888 1 @ replicate 512 2"
    by (simp add: audio_data_def ftd vds)
  have ab: "audio_bytes (frame_record ?c ?d 0) = 6400"
    by (simp add: frame_record_fields ad)
  have cap: "bytes_per_frame_audio ?c - 2 * (default_matrix_size * default_matrix_size) = 5888"
    by (simp add: init_fields default_matrix_size_def)
  have len: "length (tobytes (frame_samples ?c q ?d 0)) = bytes_per_frame_audio ?c"
    by (simp only: tobytes_frame_samples length_frame_audio)
  have lm: "length (matrix_to_audio q default_matrix_size) = 512"
    by (simp add: length_matrix_to_audio default_matrix_size_def)
  have fa: "frame_audio ?c q ?d 0 = matrix_to_audio q default_matrix_size @ replicate 5888 1"
    by (simp add: frame_audio_def full_audio_def Let_def ad lm init_fields)
  have tb: "tobytes (frame_samples ?c q ?d 0) = matrix_to_audio q default_matrix_size @ replicate 5888 1"
    by (simp only: tobytes_frame_samples fa)
  have ef: "encode_frame ?c q ?d 0 =
      Inr (frame_pixels ?c ?d 0, frame_samples ?c q ?d 0, frame_record ?c ?d 0)"
    by (rule encode_frame_init) simp_all
  show ?thesis
    unfolding default_converter_def
    apply (rule exI [of _ "frame_pixels ?c ?d 0"])
    apply (rule exI [of _ "frame_samples ?c q ?d 0"])
    apply (rule exI [of _ "frame_record ?c ?d 0"])
    apply (intro conjI)
         apply (rule ef ad ab cap len tb)+
    done
qed

section \<open>Ten thousand equal bytes\<close>

lemma np_diff_replicate: "np_diff (replicate (Suc n) v) = replicate n 0"
proof (induction n)
  case 0
  then show ?case by simp
next
  case (Suc n)
  have "np_diff (replicate (Suc (Suc n)) v) = (v - v) # np_diff (replicate (Suc n) v)"
    by simp
  then show ?case using Suc by simp
qed

lemma differential_replicate: "1 < n \<Longrightarrow> differential (replicate n v) = replicate n 0"
  using np_diff_replicate [of n v] by (simp add: differential_def)

lemma rle_chunk_replicate:
  assumes "i + 4 \<le> n"
  shows "rle_chunk (replicate n v) i = [255, v, of_nat (min (n - i) 255)]"
proof -
  have "run_count (replicate n v) i 1 = min (n - i) 255"
    using assms by (intro run_count_replicate) simp_all
  then show ?thesis using assms by (simp add: rle_chunk_def)
qed

lemma rle_loop_replicate:
  "n = i + 255 * a + r \<Longrightarrow> 4 \<le> r \<Longrightarrow> r \<le> 255 \<Longrightarrow>
   rle_loop (replicate n v) i [] = concat (replicate a [255, v, 255]) @ [255, v, of_nat r]"
proof (induction a arbitrary: i)
  case 0
  then have i: "i < length (replicate n v)" and c: "i + 4 \<le> n" by simp_all
  have rc: "run_count (replicate n v) i 1 = r"
    using 0 by (subst run_count_replicate) simp_all
  have "rle_loop (replicate n v) i [] = rle_chunk (replicate n v) i @ rle_loop (replicate n v) (i + r) []"
    using rle_loop_unfold [OF i] by (simp only: rc)
  also have "rle_loop (replicate n v) (i + r) [] = []"
    using 0 by (intro rle_loop_stop) simp
  finally have "rle_loop (replicate n v) i [] = rle_chunk (replicate n v) i" by simp
  moreover have "min (n - i) 255 = r" using 0 by simp
  ultimately show ?case by (simp add: rle_chunk_replicate [OF c])
next
  case (Suc a)
  then have i: "i < length (replicate n v)" and c: "i + 4 \<le> n" by simp_all
  have rc: "run_count (replicate n v) i 1 = 255"
    using Suc.prems by (subst run_count_replicate) simp_all
  have "rle_loop (replicate n v) i [] = rle_chunk (replicate n v) i @ rle_loop (replicate n v) (i + 255) []"
    using rle_loop_unfold [OF i] by (simp only: rc)
  also have "rle_loop (replicate n v) (i + 255) [] = concat (replicate a [255, v, 255]) @ [255, v, of_nat r]"
    using Suc.prems by (intro Suc.IH) simp_all
  finally have "rle_loop (replicate n v) i [] =
      rle_chunk (replicate n v) i @ concat (replicate a [255, v, 255]) @ [255, v, of_nat r]" .
  moreover have "min (n - i) 255 = 255" using Suc.prems by simp
  ultimately show ?case by (simp add: rle_chunk_replicate [OF c])
qed

lemma apply_rle_10000:
  "apply_rle (replicate 10000 0) = concat (replicate 39 [255, 0, 255]) @ [255, 0, 55]"
  using rle_loop_replicate [of 10000 0 39 55 0] by (simp add: apply_rle_eq)

lemma length_concat_replicate: "length (concat (replicate a xs)) = a * length xs"
  by (induction a) simp_all

lemma length_apply_rle_10000: "length (apply_rle (replicate 10000 0)) = 120"
  by (simp add: apply_rle_10000 length_concat_replicate)

lemma repeated_A_encoded:
  fixes q f
  defines "c \<equiv> init 1920 1080 48000 2"
  defines "d \<equiv> replicate 10000 65 :: byte list"
  shows "file_to_frames_with_audio c q d f = Inr (encoded c q d f)"
    and "num_frames (metadata_json (encoded c q d f)) = 1"
    and "frames (metadata_json (encoded c q d f)) ! 0 = frame_record c d 0"
    and "differential (video_data c d 0) = replicate 10000 0"
    and "compressed_length (compression (frame_record c d 0)) = 120"
    and "compression_ratio (compression (frame_record c d 0)) = 3 / 250"
proof -
  have tot: "0 < bytes_per_frame_total c" by (simp add: c_def init_fields)
  show "file_to_frames_with_audio c q d f = Inr (encoded c q d f)"
    unfolding c_def by (rule encode_init) (simp_all add: d_def)
  have n: "frame_count c d = 1"
    by (rule frame_count_eq) (simp_all add: c_def d_def init_fields)
  show "num_frames (metadata_json (encoded c q d f)) = 1"
    by (simp add: encoded_fields n)
  show "frames (metadata_json (encoded c q d f)) ! 0 = frame_record c d 0"
    by (simp add: encoded_fields n del: upt_Suc)
  have small: "length d \<le> bytes_per_frame_video c" by (simp add: c_def d_def init_fields)
  have le: "bytes_per_frame_video c \<le> bytes_per_frame_total c"
    unfolding c_def by (rule video_le_total)
  note ff = first_frame_video_only [OF small le]
  show diff: "differential (video_data c d 0) = replicate 10000 0"
    by (simp only: ff) (simp add: d_def differential_replicate)
  show "compressed_length (compression (frame_record c d 0)) = 120"
    by (simp only: frame_record_fields diff length_apply_rle_10000)
  show "compression_ratio (compression (frame_record c d 0)) = 3 / 250"
    by (simp only: frame_record_fields diff length_apply_rle_10000 ff(1)) (simp add: d_def)
qed

text \<open>
  Claim C9, as amended. For the input of 10000 bytes of value 65 at the default geometry
  there is one frame; its differential sequence is 10000 zeros, which the run-length
  stage turns into one escape triple per run of up to 255 zeros: 39 triples of count 255
  and one of count 55, 120 bytes in all. The recorded compression ratio is
  \<open>120 / 10000 = 3 / 250\<close>, below 0.02.
\<close>

theorem repeated_A_compression:
  "\<exists>art. file_to_frames_with_audio default_converter q (replicate 10000 65) f = Inr art \<and>
     num_frames (metadata_json art) = 1 \<and>
     differential (video_data default_converter (replicate 10000 65) 0) = replicate 10000 0 \<and>
     apply_rle (replicate 10000 0) = concat (replicate 39 [255, 0, 255]) @ [255, 0, 55] \<and>
     compressed_length (compression (frames (metadata_json art) ! 0)) = 120 \<and>
     compression_ratio (compression (frames (metadata_json art) ! 0)) = 3 / 250 \<and>
     compression_ratio (compression (frames (metadata_json art) ! 0)) < 1 / 50"
  unfolding default_converter_def
  by (rule exI [of _ "encoded (init 1920 1080 48000 2) q (replicate 10000 65) f"])
     (simp add: repeated_A_encoded apply_rle_10000)

text \<open>
  Claim C9 as stated puts the recorded ratio strictly below 0.01; it is \<open>3 / 250\<close>.
\<close>

theorem repeated_A_ratio_not_below_hundredth:
  "\<exists>art. file_to_frames_with_audio default_converter (\<lambda>j. (0, 0)) (replicate 10000 65) 30 = Inr art \<and>
     compression_ratio (compression (frames (metadata_json art) ! 0)) = 3 / 250 \<and>
     \<not> compression_ratio (compression (frames (metadata_json art) ! 0)) < 1 / 100"
  unfolding default_converter_def
  by (rule exI [of _ "encoded (init 1920 1080 48000 2) (\<lambda>j. (0, 0)) (replicate 10000 65) 30"])
     (simp add: repeated_A_encoded)

end
